theory Spec2Isabelle
  imports Main
begin

section \<open>Errors and values\<close>

text \<open>
  The exceptions that can leave \<^verbatim>\<open>search-github-users.py\<close>. Nothing in the file catches
  an exception, so every one of them ends the call that raised it.
  \<^item> \<open>ValueError\<close>: raised by \<^verbatim>\<open>UserSearcher.__init__\<close> (line 55) and by \<^verbatim>\<open>str\<close> of an
    integer of too many digits (lines 63 and 65), with its message;
  \<^item> \<open>KeyError\<close>: a missing column or dictionary key, with the key;
  \<^item> \<open>ZeroDivisionError\<close>: \<^verbatim>\<open>//\<close> and \<^verbatim>\<open>%\<close> by zero;
  \<^item> \<open>RequestException\<close>: what \<^verbatim>\<open>requests.get\<close> raises (line 113);
  \<^item> \<open>JSONDecodeError\<close>: what \<^verbatim>\<open>json.loads\<close> raises (line 118).
\<close>

datatype error =
    ValueError string
  | KeyError string
  | ZeroDivisionError
  | RequestException string
  | JSONDecodeError string

text \<open>
  A cell of a pandas DataFrame built from JSON records: a missing value, JSON null, a
  string, an integer, a boolean, or a number with a fraction or exponent (kept as its
  literal text; the program never computes with one).
\<close>

datatype cell = NaN | CNull | CStr string | CInt int | CBool bool | CFloat string

text \<open>
  One element of the \<^verbatim>\<open>items\<close> array of a response: a flat JSON object, as the users
  search endpoint returns (key and value pairs, the first binding of a key counts).
\<close>

type_synonym raw_record = "(string \<times> cell) list"

section \<open>The pandas operations the program calls\<close>

text \<open>
  A DataFrame is held column by column: the number of rows (the length of its index) and
  the columns in order, each with one cell per row.
\<close>

record dataframe =
  nrows :: nat
  cols :: "(string \<times> cell list) list"

definition column_names :: "dataframe \<Rightarrow> string list" where
  "column_names d = map fst (cols d)"

definition cell_of :: "raw_record \<Rightarrow> string \<Rightarrow> cell" where
  "cell_of r k = (case map_of r k of Some v \<Rightarrow> v | None \<Rightarrow> NaN)"

text \<open>The keys of the records, each once, in the order of their first appearance.\<close>

definition record_keys :: "raw_record list \<Rightarrow> string list" where
  "record_keys data = rev (remdups (rev (concat (map (map fst) data))))"

text \<open>
  \<^verbatim>\<open>pd.json_normalize(data)\<close> on a list of flat records: one row per record, one column
  per key that occurs in some record, \<open>NaN\<close> where a record lacks the key. On the empty
  list it is the empty DataFrame, with no column at all.
\<close>

definition json_normalize :: "raw_record list \<Rightarrow> dataframe" where
  "json_normalize data =
     \<lparr>nrows = length data,
      cols = map (\<lambda>k. (k, map (\<lambda>r. cell_of r k) data)) (record_keys data)\<rparr>"

text \<open>\<^verbatim>\<open>df[k]\<close>: the column, or KeyError when there is no such column.\<close>

definition getitem :: "dataframe \<Rightarrow> string \<Rightarrow> error + cell list" where
  "getitem d k = (case map_of (cols d) k of None \<Rightarrow> Inl (KeyError k) | Some v \<Rightarrow> Inr v)"

text \<open>
  \<^verbatim>\<open>df[k] = v\<close>: an existing column is overwritten where it stands, a new one is added
  last.
\<close>

definition setitem :: "dataframe \<Rightarrow> string \<Rightarrow> cell list \<Rightarrow> dataframe" where
  "setitem d k v =
     d\<lparr>cols := (if k \<in> set (column_names d)
                 then map (\<lambda>(c, w). if c = k then (c, v) else (c, w)) (cols d)
                 else cols d @ [(k, v)])\<rparr>"

text \<open>
  \<^verbatim>\<open>df.drop(labels, axis=1, inplace=True)\<close>: KeyError when a label is no column,
  otherwise every column with one of the labels goes.
\<close>

definition drop_columns :: "dataframe \<Rightarrow> string list \<Rightarrow> error + dataframe" where
  "drop_columns d labels =
     (case filter (\<lambda>l. l \<notin> set (column_names d)) labels of
        l # _ \<Rightarrow> Inl (KeyError l)
      | [] \<Rightarrow> Inr (d\<lparr>cols := filter (\<lambda>(c, w). c \<notin> set labels) (cols d)\<rparr>))"

text \<open>
  The end of a Python slice \<^verbatim>\<open>[0:stop]\<close> over \<open>n\<close> rows: a negative \<open>stop\<close> counts
  from the end.
\<close>

definition slice_stop :: "nat \<Rightarrow> int \<Rightarrow> nat" where
  "slice_stop n stop = (if stop < 0 then nat (int n + stop) else min n (nat stop))"

text \<open>\<^verbatim>\<open>df.iloc[0:stop, :]\<close>: the first rows, every column.\<close>

definition iloc :: "dataframe \<Rightarrow> int \<Rightarrow> dataframe" where
  "iloc d stop =
     \<lparr>nrows = slice_stop (nrows d) stop,
      cols = map (\<lambda>(c, w). (c, take (slice_stop (nrows d) stop) w)) (cols d)\<rparr>"

definition column_or_nan :: "dataframe \<Rightarrow> string \<Rightarrow> cell list" where
  "column_or_nan d c =
     (case map_of (cols d) c of Some w \<Rightarrow> w | None \<Rightarrow> replicate (nrows d) NaN)"

text \<open>
  \<^verbatim>\<open>pd.concat([a, b], ignore_index=True, copy=False)\<close>: the rows of \<open>a\<close>, then the rows
  of \<open>b\<close>; the columns of \<open>a\<close>, then those only \<open>b\<close> has; \<open>NaN\<close> where a frame lacks a
  column.
\<close>

definition pd_concat :: "dataframe \<Rightarrow> dataframe \<Rightarrow> dataframe" where
  "pd_concat a b =
     \<lparr>nrows = nrows a + nrows b,
      cols = map (\<lambda>c. (c, column_or_nan a c @ column_or_nan b c))
               (column_names a @ filter (\<lambda>c. c \<notin> set (column_names a)) (column_names b))\<rparr>"

section \<open>DataFrameFromDict (lines 7 to 31)\<close>

record DataFrameFromDict =
  df :: dataframe
  columns :: "string list"

definition DataFrameFromDict_init :: "raw_record list \<Rightarrow> DataFrameFromDict" where
  "DataFrameFromDict_init data =
     \<lparr>df = json_normalize data, columns = column_names (json_normalize data)\<rparr>"

text \<open>
  \<^verbatim>\<open>__exit__\<close> drops the columns recorded at construction from \<^verbatim>\<open>self.df\<close>, which the
  body of the \<^verbatim>\<open>with\<close> block has changed in place since.
\<close>

definition DataFrameFromDict_exit :: "DataFrameFromDict \<Rightarrow> error + dataframe" where
  "DataFrameFromDict_exit self = drop_columns (df self) (columns self)"

section \<open>UserSearcher\<close>

subsection \<open>Construction (lines 40 to 69)\<close>

record UserSearcher =
  search_query :: string

text \<open>The decimal digits of a natural number.\<close>

fun str_nat :: "nat \<Rightarrow> string" where
  "str_nat n =
     (if n < 10 then [''0123456789'' ! n]
      else str_nat (n div 10) @ [''0123456789'' ! (n mod 10)])"

declare str_nat.simps [simp del]

text \<open>
  The interpreter's limit on the decimal digits of an integer that is turned into a
  string: \<^verbatim>\<open>sys.int_info.default_max_str_digits\<close>, 4300 in CPython from 3.11 on (and in
  the security releases of 3.7 to 3.10).
\<close>

definition int_max_str_digits :: nat where
  "int_max_str_digits = 4300"

text \<open>
  Python's \<^verbatim>\<open>str\<close> of an integer, as the f-strings of lines 63 and 65 call it: the
  decimal digits, after a minus sign for a negative number; ValueError when the number
  has more than \<open>int_max_str_digits\<close> digits, that is, when its absolute value is at
  least \<open>10 ^ int_max_str_digits\<close>.
\<close>

definition str_int :: "int \<Rightarrow> error + string" where
  "str_int i =
     (if 10 ^ int_max_str_digits \<le> \<bar>i\<bar>
      then Inl (ValueError (''Exceeds the limit (4300 digits) for integer string conversion; '' @
                            ''use sys.set_int_max_str_digits() to increase the limit''))
      else Inr (if i < 0 then CHR ''-'' # str_nat (nat (- i)) else str_nat (nat i)))"

text \<open>\<^verbatim>\<open>sep.join(xs)\<close>.\<close>

fun join :: "string \<Rightarrow> string list \<Rightarrow> string" where
  "join sep [] = []"
| "join sep [x] = x"
| "join sep (x # y # ys) = x @ sep @ join sep (y # ys)"

text \<open>
  Lines 62 and 63, and lines 64 and 65: the clause of an integer field. The test is
  the truth value of the field, false for \<^verbatim>\<open>None\<close> and for 0; the f-string raises when
  \<^verbatim>\<open>str\<close> of the field does.
\<close>

definition int_clause :: "string \<Rightarrow> int option \<Rightarrow> error + string list" where
  "int_clause prefix field =
     (case field of
        None \<Rightarrow> Inr []
      | Some v \<Rightarrow>
          if v \<noteq> 0
          then (case str_int v of Inl e \<Rightarrow> Inl e | Inr digits \<Rightarrow> Inr [prefix @ digits])
          else Inr [])"

text \<open>
  \<^verbatim>\<open>__init__\<close>. Line 54 tests each argument with \<^verbatim>\<open>is None\<close>; lines 62, 64 and 66 test
  its truth value, which is false for \<^verbatim>\<open>None\<close>, for the integer 0 and for the empty
  string. The clauses are made in the order followers, repos, language, and the first
  exception ends the construction.
\<close>

definition UserSearcher_init ::
    "int option \<Rightarrow> int option \<Rightarrow> string option \<Rightarrow> error + UserSearcher" where
  "UserSearcher_init min_followers min_repos language =
     (if min_followers = None \<and> min_repos = None \<and> language = None
      then Inl (ValueError ''Must specify at least one search parameter.'')
      else
        (case int_clause ''followers:>='' min_followers of
           Inl e \<Rightarrow> Inl e
         | Inr followers \<Rightarrow>
             (case int_clause ''repos:>='' min_repos of
                Inl e \<Rightarrow> Inl e
              | Inr repos \<Rightarrow>
                  Inr \<lparr>search_query = join ''+''
                    (followers @ repos @
                     (case language of
                        Some l \<Rightarrow> if l \<noteq> [] then [''language:'' @ l] else []
                      | None \<Rightarrow> []))\<rparr>)))"

subsection \<open>The page plan (lines 137 to 158, and line 125)\<close>

text \<open>
  \<^verbatim>\<open>_get_pages\<close>. Python's \<^verbatim>\<open>//\<close> and \<^verbatim>\<open>%\<close> on integers round towards minus infinity,
  as \<open>div\<close> and \<open>mod\<close> on \<open>int\<close> do; the comparison is a \<^verbatim>\<open>bool\<close>, added as 0 or 1.
\<close>

definition get_pages :: "int \<Rightarrow> int \<Rightarrow> error + int" where
  "get_pages num_results max_results =
     (if max_results = 0 then Inl ZeroDivisionError
      else Inr (num_results div max_results +
                (if num_results mod max_results > 0 then 1 else 0)))"

text \<open>\<^verbatim>\<open>num_results % max_results or max_results\<close> (line 125).\<close>

definition final_res :: "int \<Rightarrow> int \<Rightarrow> int" where
  "final_res num_results max_results =
     (if num_results mod max_results \<noteq> 0 then num_results mod max_results
      else max_results)"

subsection \<open>search (lines 71 to 135)\<close>

text \<open>The query parameters of one request (lines 101 to 108).\<close>

record payload =
  param_q :: string
  param_page :: int
  param_per_page :: int
  param_type :: string

text \<open>
  The transport: lines 112 to 119 up to \<^verbatim>\<open>records['items']\<close>, that is
  \<^verbatim>\<open>requests.get\<close>, \<^verbatim>\<open>json.loads\<close> and the lookup of \<^verbatim>\<open>items\<close>. It either raises or
  gives the records of the page. No two requests of one search are equal (their page
  numbers differ), so a function of the request describes every backend.
\<close>

type_synonym transport = "payload \<Rightarrow> error + raw_record list"

definition make_payload :: "UserSearcher \<Rightarrow> int \<Rightarrow> int \<Rightarrow> int \<Rightarrow> payload" where
  "make_payload self num_results max_results i =
     \<lparr>param_q = search_query self, param_page = i + 1,
      param_per_page = min num_results max_results, param_type = ''user''\<rparr>"

text \<open>
  Lines 119 to 121: the \<^verbatim>\<open>with\<close> block. An exception in its body still runs
  \<^verbatim>\<open>__exit__\<close>, which returns \<^verbatim>\<open>None\<close>, so the exception goes on.
\<close>

definition project :: "raw_record list \<Rightarrow> error + dataframe" where
  "project items =
     (let ctx = DataFrameFromDict_init items in
      case getitem (df ctx) ''login'' of
        Inl e \<Rightarrow> Inl e
      | Inr login \<Rightarrow>
          (let ctx1 = ctx\<lparr>df := setitem (df ctx) ''username'' login\<rparr> in
           case getitem (df ctx1) ''html_url'' of
             Inl e \<Rightarrow> Inl e
           | Inr html_url \<Rightarrow>
               DataFrameFromDict_exit
                 (ctx1\<lparr>df := setitem (df ctx1) ''github_url'' html_url\<rparr>)))"

text \<open>The body of the loop up to line 126: the page \<open>i + 1\<close>, fetched, projected, trimmed.\<close>

definition fetch_page ::
    "transport \<Rightarrow> UserSearcher \<Rightarrow> int \<Rightarrow> int \<Rightarrow> int \<Rightarrow> int \<Rightarrow> error + dataframe" where
  "fetch_page tr self num_results max_results num_pages i =
     (case tr (make_payload self num_results max_results i) of
        Inl e \<Rightarrow> Inl e
      | Inr items \<Rightarrow>
          (case project items of
             Inl e \<Rightarrow> Inl e
           | Inr d \<Rightarrow>
               Inr (if i + 1 = num_pages
                    then iloc d (final_res num_results max_results)
                    else d)))"

text \<open>
  The loop over \<^verbatim>\<open>range(num_pages)\<close>, with \<^verbatim>\<open>search_results\<close> as its accumulator. It
  returns the requests it has sent, in the order sent, and the exception or the frame.
\<close>

fun search_loop ::
    "transport \<Rightarrow> UserSearcher \<Rightarrow> int \<Rightarrow> int \<Rightarrow> int \<Rightarrow> int list \<Rightarrow> dataframe
       \<Rightarrow> payload list \<times> (error + dataframe)" where
  "search_loop tr self num_results max_results num_pages [] search_results =
     ([], Inr search_results)"
| "search_loop tr self num_results max_results num_pages (i # is) search_results =
     (case fetch_page tr self num_results max_results num_pages i of
        Inl e \<Rightarrow> ([make_payload self num_results max_results i], Inl e)
      | Inr d \<Rightarrow>
          (case search_loop tr self num_results max_results num_pages is
                  (pd_concat search_results d) of
             (sent, res) \<Rightarrow> (make_payload self num_results max_results i # sent, res)))"

text \<open>The placeholder of lines 91 and 92: two columns, no row.\<close>

definition placeholder :: dataframe where
  "placeholder = \<lparr>nrows = 0, cols = [(''username'', []), (''github_url'', [])]\<rparr>"

text \<open>\<^verbatim>\<open>range(n)\<close>: empty when \<open>n \<le> 0\<close>.\<close>

definition py_range :: "int \<Rightarrow> int list" where
  "py_range n = [0..n - 1]"

definition search :: "transport \<Rightarrow> UserSearcher \<Rightarrow> int \<Rightarrow> payload list \<times> (error + dataframe)" where
  "search tr self num_results =
     (let max_results = 100 in
      case get_pages num_results max_results of
        Inl e \<Rightarrow> ([], Inl e)
      | Inr num_pages \<Rightarrow>
          search_loop tr self num_results max_results num_pages (py_range num_pages) placeholder)"

section \<open>What the claims speak of\<close>

text \<open>Every column of a frame has one cell per row.\<close>

definition wf_frame :: "dataframe \<Rightarrow> bool" where
  "wf_frame d = (\<forall>w \<in> set (map snd (cols d)). length w = nrows d)"

text \<open>
  The items of a frame, in row order: the \<^verbatim>\<open>username\<close> and the \<^verbatim>\<open>github_url\<close> of each
  row (\<open>NaN\<close> in a column the frame lacks, as \<^verbatim>\<open>pd.concat\<close> fills it).
\<close>

definition result_items :: "dataframe \<Rightarrow> (cell \<times> cell) list" where
  "result_items d = zip (column_or_nan d ''username'') (column_or_nan d ''github_url'')"

text \<open>The items that page \<open>i + 1\<close> adds to the result; none when its fetch raises.\<close>

definition page_items ::
    "transport \<Rightarrow> UserSearcher \<Rightarrow> int \<Rightarrow> int \<Rightarrow> int \<Rightarrow> int \<Rightarrow> (cell \<times> cell) list" where
  "page_items tr self num_results max_results num_pages i =
     (case fetch_page tr self num_results max_results num_pages i of
        Inl e \<Rightarrow> []
      | Inr d \<Rightarrow> result_items d)"

section \<open>A backend for tests\<close>

text \<open>
  A backend that holds the records \<open>available\<close>, in its own order, and serves page
  \<open>page\<close> of size \<open>per_page\<close> as the slice that starts at \<open>(page - 1) * per_page\<close>:
  never more than \<open>per_page\<close> records, and none once the records are used up.
\<close>

definition paged_backend :: "raw_record list \<Rightarrow> transport" where
  "paged_backend available p =
     Inr (take (nat (param_per_page p))
           (drop (nat ((param_page p - 1) * param_per_page p)) available))"

text \<open>
  A transport that answers every request with the same three records (their \<^verbatim>\<open>id\<close>
  apart), and one that fails on page 2.
\<close>

definition sample_page :: "int \<Rightarrow> raw_record list" where
  "sample_page k =
     [[(''login'', CStr ''a''), (''id'', CInt k), (''html_url'', CStr ''u'')],
      [(''login'', CStr ''b''), (''id'', CInt k), (''html_url'', CStr ''v'')],
      [(''login'', CStr ''c''), (''html_url'', CStr ''w''), (''site_admin'', CBool False)]]"

definition sample_transport :: transport where
  "sample_transport p = Inr (sample_page (param_page p))"

definition failing_transport :: transport where
  "failing_transport p =
     (if param_page p = 2 then Inl (RequestException ''reset'') else sample_transport p)"

section \<open>Frames\<close>

lemma map_of_tabulate:
  "map_of (map (\<lambda>k. (k, f k)) ks) c = (if c \<in> set ks then Some (f c) else None)"
  by (induction ks) auto

lemma map_of_None_names: "(map_of (cols d) c = None) = (c \<notin> set (column_names d))"
  by (simp add: column_names_def map_of_eq_None_iff)

lemma wf_frame_lookup: "wf_frame d \<Longrightarrow> map_of (cols d) c = Some w \<Longrightarrow> length w = nrows d"
  unfolding wf_frame_def by (force dest: map_of_SomeD)

lemma length_column_or_nan: "wf_frame d \<Longrightarrow> length (column_or_nan d c) = nrows d"
  by (auto simp: column_or_nan_def wf_frame_lookup split: option.splits)

lemma column_names_concat:
  "column_names (pd_concat a b) =
     column_names a @ filter (\<lambda>c. c \<notin> set (column_names a)) (column_names b)"
  by (simp add: pd_concat_def column_names_def comp_def)

lemma nrows_concat: "nrows (pd_concat a b) = nrows a + nrows b"
  by (simp add: pd_concat_def)

lemma map_of_cols_concat:
  "map_of (cols (pd_concat a b)) c =
     (if c \<in> set (column_names a) \<or> c \<in> set (column_names b)
      then Some (column_or_nan a c @ column_or_nan b c) else None)"
proof -
  have "map_of (cols (pd_concat a b)) c =
          (if c \<in> set (column_names a @
                 filter (\<lambda>c. c \<notin> set (column_names a)) (column_names b))
           then Some (column_or_nan a c @ column_or_nan b c) else None)"
    unfolding pd_concat_def by (simp only: dataframe.simps map_of_tabulate)
  then show ?thesis by auto
qed

lemma column_or_nan_concat:
  "column_or_nan (pd_concat a b) c = column_or_nan a c @ column_or_nan b c"
proof (cases "c \<in> set (column_names a) \<or> c \<in> set (column_names b)")
  case True
  then show ?thesis
    by (simp add: column_or_nan_def [of "pd_concat a b"] map_of_cols_concat)
next
  case False
  then have "map_of (cols a) c = None" "map_of (cols b) c = None"
    by (simp_all add: map_of_None_names)
  moreover have "map_of (cols (pd_concat a b)) c = None"
    using False by (simp add: map_of_cols_concat)
  ultimately show ?thesis
    by (simp add: column_or_nan_def nrows_concat replicate_add)
qed

lemma wf_frame_concat:
  assumes "wf_frame a" "wf_frame b"
  shows "wf_frame (pd_concat a b)"
proof -
  have "length w = nrows a + nrows b" if "w \<in> set (map snd (cols (pd_concat a b)))" for w
  proof -
    have "set (map snd (cols (pd_concat a b))) \<subseteq>
            (\<lambda>c. column_or_nan a c @ column_or_nan b c) ` UNIV"
      unfolding pd_concat_def by (simp only: dataframe.simps) auto
    with that obtain c where "w = column_or_nan a c @ column_or_nan b c"
      by blast
    then show ?thesis using assms by (simp add: length_column_or_nan)
  qed
  then show ?thesis unfolding wf_frame_def nrows_concat by blast
qed

lemma result_items_concat:
  "wf_frame a \<Longrightarrow> result_items (pd_concat a b) = result_items a @ result_items b"
  by (simp add: result_items_def column_or_nan_concat length_column_or_nan)

lemma slice_stop_le: "slice_stop n s \<le> n"
  unfolding slice_stop_def by (cases "s < 0") simp_all

lemma wf_frame_iloc: "wf_frame d \<Longrightarrow> wf_frame (iloc d s)"
  using slice_stop_le [of "nrows d" s]
  by (auto simp: wf_frame_def iloc_def)

lemma column_names_iloc: "column_names (iloc d s) = column_names d"
  by (simp add: column_names_def iloc_def comp_def case_prod_unfold)

lemma wf_frame_json_normalize: "wf_frame (json_normalize data)"
  by (auto simp: wf_frame_def json_normalize_def)

lemma wf_frame_setitem: "wf_frame d \<Longrightarrow> length v = nrows d \<Longrightarrow> wf_frame (setitem d k v)"
  by (auto simp: wf_frame_def setitem_def split: if_splits)

lemma nrows_setitem: "nrows (setitem d k v) = nrows d"
  by (simp add: setitem_def)

lemma getitem_length: "wf_frame d \<Longrightarrow> getitem d k = Inr v \<Longrightarrow> length v = nrows d"
  by (auto simp: getitem_def wf_frame_lookup split: option.splits)

lemma drop_columns_Inr:
  "drop_columns d labels = Inr d' \<Longrightarrow>
     d' = d\<lparr>cols := filter (\<lambda>(c, w). c \<notin> set labels) (cols d)\<rparr>"
  by (auto simp: drop_columns_def split: list.splits)

lemma wf_frame_drop: "wf_frame d \<Longrightarrow> drop_columns d labels = Inr d' \<Longrightarrow> wf_frame d'"
  by (fastforce simp: wf_frame_def dest!: drop_columns_Inr)

lemma wf_frame_placeholder: "wf_frame placeholder"
  by (simp add: wf_frame_def placeholder_def)

lemma wf_frame_project: "project items = Inr d \<Longrightarrow> wf_frame d"
  unfolding project_def Let_def DataFrameFromDict_exit_def DataFrameFromDict_init_def
  by (auto split: sum.splits
      intro!: wf_frame_drop [where d' = d] wf_frame_setitem
      simp: wf_frame_json_normalize nrows_setitem getitem_length
      dest!: getitem_length [rotated])

section \<open>The projection of a page\<close>

lemma distinct_record_keys: "distinct (record_keys data)"
  by (simp add: record_keys_def)

lemma set_record_keys: "set (record_keys data) = (\<Union>r \<in> set data. fst ` set r)"
  by (auto simp: record_keys_def)

lemma column_names_json_normalize: "column_names (json_normalize data) = record_keys data"
  by (simp add: column_names_def json_normalize_def comp_def)

lemma getitem_json_normalize:
  "getitem (json_normalize data) k =
     (if k \<in> set (record_keys data) then Inr (map (\<lambda>r. cell_of r k) data)
      else Inl (KeyError k))"
  by (simp add: getitem_def json_normalize_def map_of_tabulate)

lemma column_names_setitem:
  "column_names (setitem d k v) =
     (if k \<in> set (column_names d) then column_names d else column_names d @ [k])"
  by (auto simp: setitem_def column_names_def comp_def case_prod_unfold intro!: map_cong)

lemma getitem_setitem_other:
  "k \<noteq> k' \<Longrightarrow> getitem (setitem d k v) k' = getitem d k'"
proof -
  assume ne: "k \<noteq> k'"
  have "map_of (map (\<lambda>(c, w). if c = k then (c, v) else (c, w)) xs) k' = map_of xs k'" for xs
    using ne by (induction xs) auto
  moreover have "map_of (xs @ [(k, v)]) k' = map_of xs k'" for xs :: "(string \<times> cell list) list"
    using ne by (induction xs) auto
  ultimately show ?thesis by (simp add: getitem_def setitem_def)
qed

lemma filter_old_columns:
  "set (map fst xs) \<subseteq> set ks \<Longrightarrow> filter (\<lambda>(c, w). c \<notin> set ks) xs = []"
  by (induction xs) auto

lemma drop_columns_known:
  "set labels \<subseteq> set (column_names d) \<Longrightarrow>
   drop_columns d labels = Inr (d\<lparr>cols := filter (\<lambda>(c, w). c \<notin> set labels) (cols d)\<rparr>)"
proof -
  assume "set labels \<subseteq> set (column_names d)"
  then have "filter (\<lambda>l. l \<notin> set (column_names d)) labels = []"
    by (auto simp: filter_empty_conv)
  then show ?thesis by (simp add: drop_columns_def)
qed

text \<open>The columns that are left of a frame once the labels \<open>ks\<close> are dropped.\<close>

lemma kept_setitem:
  assumes "set (column_names d) \<subseteq> insert k' (set ks)" "k \<noteq> k'"
  shows "filter (\<lambda>(c, w). c \<notin> set ks) (cols (setitem d k v)) =
           filter (\<lambda>(c, w). c \<notin> set ks) (cols d) @ (if k \<in> set ks then [] else [(k, v)])"
proof (cases "k \<in> set (column_names d)")
  case True
  then have k: "k \<in> set ks" using assms by auto
  have "filter (\<lambda>(c, w). c \<notin> set ks) (map (\<lambda>(c, w). if c = k then (c, v) else (c, w)) xs) =
        filter (\<lambda>(c, w). c \<notin> set ks) xs" for xs
    using k by (induction xs) (auto split: if_splits)
  then show ?thesis using True k by (simp add: setitem_def)
next
  case False
  then show ?thesis by (simp add: setitem_def)
qed

lemma project_eq:
  "project items =
     (if ''login'' \<notin> set (record_keys items) then Inl (KeyError ''login'')
      else if ''html_url'' \<notin> set (record_keys items) then Inl (KeyError ''html_url'')
      else Inr \<lparr>nrows = length items,
                cols =
                  (if ''username'' \<in> set (record_keys items) then []
                   else [(''username'', map (\<lambda>r. cell_of r ''login'') items)]) @
                  (if ''github_url'' \<in> set (record_keys items) then []
                   else [(''github_url'', map (\<lambda>r. cell_of r ''html_url'') items)])\<rparr>)"
proof -
  let ?K = "record_keys items"
  let ?d0 = "json_normalize items"
  let ?login = "map (\<lambda>r. cell_of r ''login'') items"
  let ?url = "map (\<lambda>r. cell_of r ''html_url'') items"
  let ?d1 = "setitem ?d0 ''username'' ?login"
  let ?d2 = "setitem ?d1 ''github_url'' ?url"
  have n0: "column_names ?d0 = ?K" by (rule column_names_json_normalize)
  have sub1: "set (column_names ?d1) \<subseteq> insert ''username'' (set ?K)"
    by (auto simp: column_names_setitem n0)
  have sub0: "set (column_names ?d0) \<subseteq> insert ''github_url'' (set ?K)"
    unfolding n0 by blast
  have old0: "filter (\<lambda>(c, w). c \<notin> set ?K) (cols ?d0) = []"
    by (rule filter_old_columns) (simp add: n0 [unfolded column_names_def])
  have kept: "filter (\<lambda>(c, w). c \<notin> set ?K) (cols ?d2) =
      (if ''username'' \<in> set ?K then [] else [(''username'', ?login)]) @
      (if ''github_url'' \<in> set ?K then [] else [(''github_url'', ?url)])"
  proof -
    have ne1: "''github_url'' \<noteq> ''username''" and ne2: "''username'' \<noteq> ''github_url''"
      by simp_all
    show ?thesis
      unfolding kept_setitem [OF sub1 ne1] kept_setitem [OF sub0 ne2] old0 by simp
  qed
  have labels: "set ?K \<subseteq> set (column_names ?d2)"
    by (auto simp: column_names_setitem n0)
  have exit: "drop_columns ?d2 ?K =
      Inr (?d2\<lparr>cols := filter (\<lambda>(c, w). c \<notin> set ?K) (cols ?d2)\<rparr>)"
    by (rule drop_columns_known [OF labels])
  have nr: "nrows ?d2 = length items"
    by (simp add: nrows_setitem json_normalize_def)
  have d2: "?d2\<lparr>cols := c\<rparr> = \<lparr>nrows = length items, cols = c\<rparr>" for c
    using nr by (cases ?d2) simp
  have g2: "getitem ?d1 ''html_url'' = getitem ?d0 ''html_url''"
    by (rule getitem_setitem_other) simp
  show ?thesis
    unfolding project_def Let_def DataFrameFromDict_init_def DataFrameFromDict_exit_def
    by (simp add: getitem_json_normalize g2 n0 exit d2 kept del: filter.simps)
qed

section \<open>Truncation\<close>

lemma column_or_nan_iloc:
  "column_or_nan (iloc d s) c = take (slice_stop (nrows d) s) (column_or_nan d c)"
proof -
  have "map_of (map (\<lambda>(c, w). (c, take k w)) xs) c = map_option (take k) (map_of xs c)"
    for k and xs :: "(string \<times> cell list) list"
    by (induction xs) auto
  then show ?thesis
    using slice_stop_le [of "nrows d" s]
    by (auto simp: column_or_nan_def iloc_def min_def split: option.splits)
qed

lemma result_items_iloc:
  "result_items (iloc d s) = take (slice_stop (nrows d) s) (result_items d)"
  by (simp add: result_items_def column_or_nan_iloc take_zip)

lemma take_min_length: "length xs = m \<Longrightarrow> take (min m k) xs = take k xs"
  by (auto simp: min_def)

lemma length_result_items: "wf_frame d \<Longrightarrow> length (result_items d) = nrows d"
  by (simp add: result_items_def length_column_or_nan)

section \<open>The page plan\<close>

lemma py_range_nonpos: "n \<le> 0 \<Longrightarrow> py_range n = []"
  by (simp add: py_range_def)

lemma mod_100_pos_iff: "(0 < (n::int) mod 100) = (n mod 100 \<noteq> 0)"
proof -
  have "0 \<le> n mod 100" by simp
  then show ?thesis by linarith
qed

lemma get_pages_100: "get_pages n 100 = Inr (- ((- n) div 100))"
  by (simp add: get_pages_def zdiv_zminus1_eq_if mod_100_pos_iff)

lemma final_res_100: "final_res n 100 = (if n mod 100 = 0 then 100 else n mod 100)"
  by (simp add: final_res_def)

lemma final_res_100_bounds: "0 < final_res n 100 \<and> final_res n 100 \<le> 100"
proof -
  have "0 \<le> n mod 100" "n mod 100 < 100" by simp_all
  moreover from this have "0 < n mod 100" if "n mod 100 \<noteq> 0"
    using that by linarith
  ultimately show ?thesis unfolding final_res_100 by auto
qed

lemma slice_stop_nonneg: "0 \<le> s \<Longrightarrow> slice_stop k s = min k (nat s)"
  by (simp add: slice_stop_def)

lemma py_range_3: "py_range 3 = [0, 1, 2]"
  by (simp add: py_range_def upto_rec1)



section \<open>The loop of search\<close>

lemma wf_frame_fetch_page: "fetch_page tr self n m np i = Inr d \<Longrightarrow> wf_frame d"
  by (auto simp: fetch_page_def wf_frame_project wf_frame_iloc split: sum.splits if_splits)

lemma fetch_page_transport_error:
  "tr (make_payload self n m i) = Inl e \<Longrightarrow> fetch_page tr self n m np i = Inl e"
  by (simp add: fetch_page_def)

lemma fetch_page_Inr_transport:
  "fetch_page tr self n m np i = Inr d \<Longrightarrow> \<exists>items. tr (make_payload self n m i) = Inr items"
  by (auto simp: fetch_page_def split: sum.splits)

lemma make_payload_inj: "(make_payload self n m i = make_payload self n m j) = (i = j)"
  by (auto simp: make_payload_def)

lemma search_loop_Cons_Inl:
  "fetch_page tr self n m np i = Inl e \<Longrightarrow>
   search_loop tr self n m np (i # is) acc = ([make_payload self n m i], Inl e)"
  by simp

lemma search_loop_Cons_Inr:
  "fetch_page tr self n m np i = Inr d \<Longrightarrow>
   search_loop tr self n m np (i # is) acc =
     (make_payload self n m i # fst (search_loop tr self n m np is (pd_concat acc d)),
      snd (search_loop tr self n m np is (pd_concat acc d)))"
  by (simp split: prod.splits)

declare search_loop.simps(2) [simp del]

lemma search_loop_sent_prefix:
  "\<exists>k \<le> length is. fst (search_loop tr self n m np is acc) =
     take k (map (make_payload self n m) is)"
proof (induction "is" arbitrary: acc)
  case Nil
  then show ?case by simp
next
  case (Cons i "is")
  show ?case
  proof (cases "fetch_page tr self n m np i")
    case (Inl e)
    have "[make_payload self n m i] = take (Suc 0) (map (make_payload self n m) (i # is))"
      by simp
    then have "fst (search_loop tr self n m np (i # is) acc) =
            take (Suc 0) (map (make_payload self n m) (i # is))"
      by (simp add: search_loop_Cons_Inl [OF Inl])
    moreover have "Suc 0 \<le> length (i # is)" by simp
    ultimately show ?thesis by blast
  next
    case (Inr d)
    obtain k where k: "k \<le> length is"
      "fst (search_loop tr self n m np is (pd_concat acc d)) =
         take k (map (make_payload self n m) is)"
      using Cons.IH [of "pd_concat acc d"] by blast
    have "fst (search_loop tr self n m np (i # is) acc) =
            take (Suc k) (map (make_payload self n m) (i # is))"
      using k(2) by (simp add: search_loop_Cons_Inr [OF Inr])
    with k(1) show ?thesis by (metis Suc_le_mono length_Cons)
  qed
qed

lemma search_loop_Inr:
  assumes "search_loop tr self n m np is acc = (sent, Inr rs)" and "wf_frame acc"
  shows "sent = map (make_payload self n m) is \<and>
         result_items rs = result_items acc @ concat (map (page_items tr self n m np) is) \<and>
         wf_frame rs"
  using assms
proof (induction "is" arbitrary: acc sent)
  case Nil
  then show ?case by simp
next
  case (Cons i "is")
  show ?case
  proof (cases "fetch_page tr self n m np i")
    case (Inl e)
    with Cons.prems show ?thesis by (simp add: search_loop_Cons_Inl)
  next
    case (Inr d)
    obtain sent' where rec: "search_loop tr self n m np is (pd_concat acc d) = (sent', Inr rs)"
      and sent: "sent = make_payload self n m i # sent'"
      using Cons.prems(1) by (simp add: search_loop_Cons_Inr [OF Inr] prod_eq_iff)
    have wf: "wf_frame (pd_concat acc d)"
      using Cons.prems(2) Inr by (simp add: wf_frame_concat wf_frame_fetch_page)
    from Cons.IH [OF rec wf] show ?thesis
      using sent Inr Cons.prems(2) by (simp add: result_items_concat page_items_def)
  qed
qed

lemma search_loop_butlast_ok:
  "p \<in> set (butlast (fst (search_loop tr self n m np is acc))) \<Longrightarrow> \<exists>items. tr p = Inr items"
proof (induction "is" arbitrary: acc)
  case Nil
  then show ?case by simp
next
  case (Cons i "is")
  show ?case
  proof (cases "fetch_page tr self n m np i")
    case (Inl e)
    with Cons.prems show ?thesis by (simp add: search_loop_Cons_Inl)
  next
    case (Inr d)
    then show ?thesis
      using Cons.prems Cons.IH [of "pd_concat acc d"] fetch_page_Inr_transport [OF Inr]
      by (auto simp: search_loop_Cons_Inr [OF Inr] split: if_splits)
  qed
qed

lemma search_loop_last_fails:
  "fst (search_loop tr self n m np is acc) \<noteq> [] \<Longrightarrow>
   tr (last (fst (search_loop tr self n m np is acc))) = Inl e \<Longrightarrow>
   snd (search_loop tr self n m np is acc) = Inl e"
proof (induction "is" arbitrary: acc)
  case Nil
  then show ?case by simp
next
  case (Cons i "is")
  show ?case
  proof (cases "fetch_page tr self n m np i")
    case (Inl e')
    with Cons.prems show ?thesis
      by (auto simp: search_loop_Cons_Inl [OF Inl] fetch_page_def split: sum.splits)
  next
    case (Inr d)
    then show ?thesis
      using Cons.prems Cons.IH [of "pd_concat acc d"] fetch_page_Inr_transport [OF Inr]
      by (auto simp: search_loop_Cons_Inr [OF Inr] split: if_splits)
  qed
qed

lemma search_loop_distinct:
  assumes "distinct is"
  shows "distinct (fst (search_loop tr self n m np is acc))"
proof -
  have "distinct (map (make_payload self n m) is)"
    using assms by (simp add: distinct_map inj_on_def make_payload_inj)
  then show ?thesis
    using search_loop_sent_prefix [of "is" tr self n m np acc] by (auto simp: distinct_take)
qed

lemma search_100:
  "search tr self n =
     search_loop tr self n 100 (- ((- n) div 100)) (py_range (- ((- n) div 100))) placeholder"
  by (simp add: search_def get_pages_100)

section \<open>The columns of the result\<close>

lemma column_names_project:
  assumes "project items = Inr d"
  shows "set (column_names d) \<subseteq> {''username'', ''github_url''} \<and>
         set (column_names d) \<inter> set (record_keys items) = {}"
  using assms unfolding project_eq column_names_def
  by (auto split: if_splits)

lemma column_names_fetch_page:
  "fetch_page tr self n m np i = Inr d \<Longrightarrow>
   set (column_names d) \<subseteq> {''username'', ''github_url''}"
  by (auto simp: fetch_page_def column_names_iloc split: sum.splits if_splits
      dest!: column_names_project)

lemma column_names_concat_result:
  assumes "column_names a = [''username'', ''github_url'']"
    and "set (column_names d) \<subseteq> {''username'', ''github_url''}"
  shows "column_names (pd_concat a d) = [''username'', ''github_url'']"
proof -
  have "filter (\<lambda>c. c \<notin> set (column_names a)) (column_names d) = []"
    using assms by (auto simp: filter_empty_conv)
  then show ?thesis by (simp add: column_names_concat assms(1))
qed

lemma search_loop_column_names:
  assumes "search_loop tr self n m np is acc = (sent, Inr rs)"
    and "column_names acc = [''username'', ''github_url'']"
  shows "column_names rs = [''username'', ''github_url'']"
  using assms
proof (induction "is" arbitrary: acc sent)
  case Nil
  then show ?case by simp
next
  case (Cons i "is")
  show ?case
  proof (cases "fetch_page tr self n m np i")
    case (Inl e)
    with Cons.prems show ?thesis by (simp add: search_loop_Cons_Inl)
  next
    case (Inr d)
    obtain sent' where rec: "search_loop tr self n m np is (pd_concat acc d) = (sent', Inr rs)"
      using Cons.prems(1) by (simp add: search_loop_Cons_Inr [OF Inr] prod_eq_iff)
    have "column_names (pd_concat acc d) = [''username'', ''github_url'']"
      by (rule column_names_concat_result [OF Cons.prems(2) column_names_fetch_page [OF Inr]])
    from Cons.IH [OF rec this] show ?thesis .
  qed
qed

lemma project_Nil: "project [] = Inl (KeyError ''login'')"
  by (simp add: project_eq record_keys_def)

lemma py_range_1: "py_range 1 = [0]"
  by (simp add: py_range_def)

section \<open>The items of a page\<close>


lemma page_items_eq:
  assumes "tr (make_payload self n 100 i) = Inr items" and "project items = Inr d"
  shows "page_items tr self n 100 np i =
           (if i + 1 = np then take (nat (final_res n 100)) (result_items d)
            else result_items d)"
proof -
  have pos: "0 \<le> final_res n 100" using final_res_100_bounds [of n] by simp
  have len: "length (result_items d) = nrows d"
    by (rule length_result_items [OF wf_frame_project [OF assms(2)]])
  have "result_items (iloc d (final_res n 100)) = take (nat (final_res n 100)) (result_items d)"
    by (simp only: result_items_iloc slice_stop_nonneg [OF pos] take_min_length [OF len])
  then show ?thesis
    using assms by (simp add: page_items_def fetch_page_def)
qed

section \<open>The sample transports, evaluated\<close>

lemma project_sample:
  "project (sample_page k) =
     Inr \<lparr>nrows = 3,
          cols = [(''username'', [CStr ''a'', CStr ''b'', CStr ''c'']),
                  (''github_url'', [CStr ''u'', CStr ''v'', CStr ''w''])]\<rparr>"
  by (simp add: project_eq record_keys_def sample_page_def cell_of_def)

lemma search_sample_102:
  "search sample_transport \<lparr>search_query = ''q''\<rparr> 102 =
     ([\<lparr>param_q = ''q'', param_page = 1, param_per_page = 100, param_type = ''user''\<rparr>,
       \<lparr>param_q = ''q'', param_page = 2, param_per_page = 100, param_type = ''user''\<rparr>],
      Inr \<lparr>nrows = 5,
           cols = [(''username'', [CStr ''a'', CStr ''b'', CStr ''c'', CStr ''a'', CStr ''b'']),
                   (''github_url'', [CStr ''u'', CStr ''v'', CStr ''w'', CStr ''u'', CStr ''v''])]\<rparr>)"
  by code_simp

lemma search_failing_250:
  "search failing_transport \<lparr>search_query = ''q''\<rparr> 250 =
     ([\<lparr>param_q = ''q'', param_page = 1, param_per_page = 100, param_type = ''user''\<rparr>,
       \<lparr>param_q = ''q'', param_page = 2, param_per_page = 100, param_type = ''user''\<rparr>],
      Inl (RequestException ''reset''))"
  by code_simp

section \<open>The number of items\<close>

lemma py_range_nat: "py_range np = map int [0..<nat np]"
  unfolding py_range_def
proof (rule nth_equalityI)
  show "length [0..np - 1] = length (map int [0..<nat np])" by simp
next
  fix k assume "k < length [0..np - 1]"
  then have "int k \<le> np - 1" by simp
  then show "[0..np - 1] ! k = map int [0..<nat np] ! k" by simp
qed

lemma project_nrows: "project items = Inr d \<Longrightarrow> nrows d = length items"
  unfolding project_eq by (auto split: if_splits)

lemma project_ok:
  assumes "items \<noteq> []"
    and "\<forall>r \<in> set items. ''login'' \<in> fst ` set r \<and> ''html_url'' \<in> fst ` set r"
  shows "\<exists>d. project items = Inr d"
proof -
  obtain r where "r \<in> set items" using assms(1) by (cases items) auto
  with assms(2) have "''login'' \<in> set (record_keys items)" "''html_url'' \<in> set (record_keys items)"
    unfolding set_record_keys by blast+
  then show ?thesis unfolding project_eq by simp
qed

lemma search_loop_all_ok:
  "\<forall>i \<in> set is. \<exists>d. fetch_page tr self n m np i = Inr d \<Longrightarrow>
   \<exists>rs. snd (search_loop tr self n m np is acc) = Inr rs"
proof (induction "is" arbitrary: acc)
  case Nil
  then show ?case by simp
next
  case (Cons i "is")
  then obtain d where d: "fetch_page tr self n m np i = Inr d" by auto
  from Cons.IH [of "pd_concat acc d"] Cons.prems show ?case
    by (simp add: search_loop_Cons_Inr [OF d])
qed

lemma search_loop_nrows:
  assumes "search_loop tr self n m np is acc = (sent, Inr rs)" and "wf_frame acc"
  shows "nrows rs = nrows acc + sum_list (map (\<lambda>i. length (page_items tr self n m np i)) is)"
proof -
  from search_loop_Inr [OF assms]
  have r: "result_items rs = result_items acc @ concat (map (page_items tr self n m np) is)"
    and wf: "wf_frame rs" by simp_all
  have "nrows rs = length (result_items rs)" by (simp add: length_result_items [OF wf])
  also have "\<dots> = nrows acc + length (concat (map (page_items tr self n m np) is))"
    unfolding r by (simp add: length_result_items [OF assms(2)])
  finally show ?thesis by (simp add: length_concat comp_def)
qed

text \<open>The plan for \<open>n > 0\<close>, in natural numbers.\<close>

lemma page_plan_nat:
  assumes "0 < n"
  defines "np \<equiv> - ((- n) div 100)"
  shows "1 \<le> np"
    and "nat n = nat (np - 1) * nat (min n 100) + nat (final_res n 100)"
    and "nat (final_res n 100) \<le> nat (min n 100)"
    and "0 < final_res n 100"
    and "(np - 1) * 100 = int (nat (np - 1) * nat (min n 100))"
proof -
  have np: "np = n div 100 + (if n mod 100 \<noteq> 0 then 1 else 0)"
    using get_pages_100 [of n] unfolding np_def get_pages_def mod_100_pos_iff by simp
  have dm: "n = 100 * (n div 100) + n mod 100" by simp
  have q: "0 \<le> n div 100" using assms by (simp add: pos_imp_zdiv_nonneg_iff)
  have r: "0 \<le> n mod 100" "n mod 100 < 100" by simp_all
  show "0 < final_res n 100" using final_res_100_bounds by simp
  show "1 \<le> np" using np dm q r assms by (cases "n mod 100 = 0") auto
  consider (small) "n div 100 = 0" | (exact) "n div 100 \<noteq> 0" "n mod 100 = 0"
    | (big) "n div 100 \<noteq> 0" "n mod 100 \<noteq> 0" by blast
  then have "nat n = nat (np - 1) * nat (min n 100) + nat (final_res n 100) \<and>
         nat (final_res n 100) \<le> nat (min n 100) \<and>
         (np - 1) * 100 = int (nat (np - 1) * nat (min n 100))"
  proof cases
    case small
    then have "n = n mod 100" using dm by simp
    then have n: "n < 100" "n mod 100 \<noteq> 0" using r assms by auto
    then have "np = 1" using np small by simp
    moreover have "final_res n 100 = n" using n \<open>n = n mod 100\<close> by (simp add: final_res_100)
    ultimately show ?thesis using n by simp
  next
    case exact
    then have n: "n = 100 * (n div 100)" using dm by simp
    have q1: "1 \<le> n div 100" using q exact(1) by simp
    then have "100 \<le> n" using n by linarith
    then have m: "min n 100 = 100" by simp
    have f: "final_res n 100 = 100" using exact(2) by (simp add: final_res_100)
    have p: "np - 1 = n div 100 - 1" using np exact(2) by simp
    have "nat n = nat (n div 100 - 1) * 100 + 100"
    proof -
      have "n = (n div 100 - 1) * 100 + 100" using n by (simp add: algebra_simps)
      then have "nat n = nat ((n div 100 - 1) * 100 + 100)" by simp
      also have "\<dots> = nat ((n div 100 - 1) * 100) + 100" using q1 by (simp add: nat_add_distrib)
      also have "\<dots> = nat (n div 100 - 1) * 100 + 100" using q1 by (simp add: nat_mult_distrib)
      finally show ?thesis .
    qed
    moreover have "(n div 100 - 1) * 100 = int (nat (n div 100 - 1) * 100)" using q1 by simp
    ultimately show ?thesis unfolding p m f by simp
  next
    case big
    have q1: "1 \<le> n div 100" using q big(1) by simp
    then have "100 \<le> n" using dm r by linarith
    then have m: "min n 100 = 100" by simp
    have f: "final_res n 100 = n mod 100" using big(2) by (simp add: final_res_100)
    have p: "np - 1 = n div 100" using np big(2) by simp
    have "nat n = nat (n div 100) * 100 + nat (n mod 100)"
    proof -
      have "nat n = nat ((n div 100) * 100 + n mod 100)" using dm by (simp add: mult.commute)
      also have "\<dots> = nat ((n div 100) * 100) + nat (n mod 100)"
        using q r by (intro nat_add_distrib) simp_all
      also have "\<dots> = nat (n div 100) * 100 + nat (n mod 100)"
        using q by (simp add: nat_mult_distrib)
      finally show ?thesis .
    qed
    moreover have "(n div 100) * 100 = int (nat (n div 100) * 100)" using q by simp
    moreover have "nat (n mod 100) \<le> 100" using r by linarith
    ultimately show ?thesis unfolding p m f by simp
  qed
  then show "nat n = nat (np - 1) * nat (min n 100) + nat (final_res n 100)"
    and "nat (final_res n 100) \<le> nat (min n 100)"
    and "(np - 1) * 100 = int (nat (np - 1) * nat (min n 100))" by simp_all
qed

lemma paged_backend_page:
  "paged_backend available (make_payload self n m (int j)) =
     Inr (take (nat (min n m)) (drop (j * nat (min n m)) available))"
proof -
  have "nat ((int j + 1 - 1) * min n m) = j * nat (min n m)"
    by (simp add: nat_mult_distrib)
  then show ?thesis by (simp add: paged_backend_def make_payload_def)
qed

lemma nrows_iloc_nonneg: "0 \<le> s \<Longrightarrow> nrows (iloc d s) = min (nrows d) (nat s)"
  by (simp add: iloc_def slice_stop_nonneg)

lemma length_page_items:
  "fetch_page tr self n m np i = Inr d \<Longrightarrow> length (page_items tr self n m np i) = nrows d"
  by (simp add: page_items_def length_result_items wf_frame_fetch_page)

text \<open>
  On a backend that serves its records page by page, each record with a \<^verbatim>\<open>login\<close> and
  an \<^verbatim>\<open>html_url\<close>, a search for \<open>n > 0\<close> results returns \<open>min n available\<close> items
  provided the last page of the plan is not empty, that is, more than
  \<open>(num_pages - 1) * 100\<close> records are available.
\<close>

lemma search_count:
  assumes n: "0 < n"
    and keys: "\<forall>r \<in> set available. ''login'' \<in> fst ` set r \<and> ''html_url'' \<in> fst ` set r"
    and enough: "(- ((- n) div 100) - 1) * 100 < int (length available)"
  shows "\<exists>rs. snd (search (paged_backend available) self n) = Inr rs \<and>
              nrows rs = min (nat n) (length available)"
proof -
  define np where "np = - ((- n) div 100)"
  define k where "k = nat (np - 1)"
  define M where "M = nat (min n 100)"
  define F where "F = nat (final_res n 100)"
  define L where "L = length available"
  define P where "P j = take M (drop (j * M) available)" for j
  let ?tr = "paged_backend available"
  let ?len = "\<lambda>i. length (page_items ?tr self n 100 np i)"
  note plan = page_plan_nat [OF n, folded np_def]
  have np1: "1 \<le> np" by (rule plan(1))
  have N: "nat n = k * M + F" using plan(2) by (simp add: k_def M_def F_def)
  have FM: "F \<le> M" using plan(3) by (simp add: M_def F_def)
  have fr: "0 \<le> final_res n 100" using plan(4) by simp
  have Fpos: "0 < F" using plan(4) by (simp add: F_def)
  have B: "(np - 1) * 100 = int (k * M)" using plan(5) by (simp add: k_def M_def)
  have "(np - 1) * 100 < int L" using enough by (simp only: np_def L_def)
  then have kM: "k * M < L" unfolding B by (simp only: of_nat_less_iff)
  have last_iff: "(int j + 1 = np) = (j = k)" for j
    using np1 unfolding k_def by auto
  have page: "?tr (make_payload self n 100 (int j)) = Inr (P j)" for j
    unfolding P_def M_def by (rule paged_backend_page)
  have lenP: "length (P j) = min M (L - j * M)" for j
    by (simp add: P_def L_def)
  have below: "j * M < L" if "j \<le> k" for j
  proof -
    have "j * M \<le> k * M" using that by (rule mult_le_mono1)
    then show ?thesis using kM by (rule le_less_trans)
  qed
  have full: "length (P j) = M" if "j < k" for j
  proof -
    have "Suc j \<le> k" using that by simp
    then have "Suc j * M \<le> k * M" by (rule mult_le_mono1)
    then have "Suc j * M < L" using kM by (rule le_less_trans)
    then have "j * M + M < L" by (simp add: add.commute)
    then show ?thesis unfolding lenP by simp
  qed
  have fetch: "\<exists>d. fetch_page ?tr self n 100 np (int j) = Inr d \<and>
                 nrows d = (if j = k then min (length (P j)) F else length (P j))"
    if "j \<le> k" for j
  proof -
    have "P j \<noteq> []" using below [OF that] Fpos FM unfolding P_def L_def by simp
    moreover have "\<forall>r \<in> set (P j). ''login'' \<in> fst ` set r \<and> ''html_url'' \<in> fst ` set r"
      using keys unfolding P_def by (meson in_set_dropD in_set_takeD)
    ultimately obtain d where d: "project (P j) = Inr d"
      using project_ok by blast
    have nd: "nrows d = length (P j)" by (rule project_nrows [OF d])
    have "fetch_page ?tr self n 100 np (int j) =
            Inr (if j = k then iloc d (final_res n 100) else d)"
      by (simp add: fetch_page_def page d last_iff)
    moreover have "nrows (if j = k then iloc d (final_res n 100) else d) =
            (if j = k then min (length (P j)) F else length (P j))"
      using nd by (simp add: nrows_iloc_nonneg [OF fr] F_def)
    ultimately show ?thesis by blast
  qed
  have len: "?len (int j) = (if j = k then min (length (P j)) F else length (P j))"
    if "j \<le> k" for j
    using fetch [OF that] length_page_items by metis
  have range: "py_range np = map int [0..<Suc k]"
    using np1 unfolding py_range_nat k_def by (simp add: Suc_nat_eq_nat_zadd1)
  have "\<exists>d. fetch_page ?tr self n 100 np i = Inr d" if "i \<in> set (py_range np)" for i
  proof -
    from that obtain j where "i = int j" "j \<le> k" unfolding range by auto
    then show ?thesis using fetch [of j] by blast
  qed
  then have "\<forall>i \<in> set (py_range np). \<exists>d. fetch_page ?tr self n 100 np i = Inr d"
    by blast
  then obtain rs where rs: "snd (search_loop ?tr self n 100 np (py_range np) placeholder) = Inr rs"
    using search_loop_all_ok by blast
  then have "search_loop ?tr self n 100 np (py_range np) placeholder =
      (fst (search_loop ?tr self n 100 np (py_range np) placeholder), Inr rs)"
    by (simp add: prod_eq_iff)
  from search_loop_nrows [OF this wf_frame_placeholder]
  have "nrows rs = sum_list (map ?len (py_range np))"
    by (simp add: placeholder_def)
  also have "\<dots> = sum_list (map (\<lambda>j. ?len (int j)) [0..<k]) + ?len (int k)"
    unfolding range by (simp add: comp_def)
  also have "sum_list (map (\<lambda>j. ?len (int j)) [0..<k]) = sum_list (map (\<lambda>j. M) [0..<k])"
    by (rule arg_cong [where f = sum_list], rule map_cong) (simp_all add: len full)
  also have "\<dots> = k * M" by (simp add: sum_list_triv)
  also have "?len (int k) = min (L - k * M) F"
    using FM by (simp add: len lenP)
  finally have "nrows rs = k * M + min (L - k * M) F" .
  then have "nrows rs = min (nat n) L" using kM N by simp
  then show ?thesis using rs unfolding search_100 np_def L_def by blast
qed

lemma search_count_example:
  "\<exists>rs. snd (search (paged_backend (sample_page 1)) \<lparr>search_query = ''q''\<rparr> 2) = Inr rs \<and>
        nrows rs = 2"
proof -
  have h1: "(0::int) < 2" by simp
  have h2: "\<forall>r \<in> set (sample_page 1). ''login'' \<in> fst ` set r \<and> ''html_url'' \<in> fst ` set r"
    by (simp add: sample_page_def)
  have h3: "(- ((- 2) div 100) - 1) * 100 < int (length (sample_page 1))"
    by (simp add: sample_page_def)
  have "min (nat 2) (length (sample_page 1)) = 2" by (simp add: sample_page_def)
  with search_count [OF h1 h2 h3, of "\<lparr>search_query = ''q''\<rparr>"] show ?thesis by simp
qed

section \<open>The query\<close>

lemma str_int_below:
  assumes "\<bar>i\<bar> < 10 ^ k" and "k \<le> int_max_str_digits"
  shows "str_int i = Inr (if i < 0 then CHR ''-'' # str_nat (nat (- i)) else str_nat (nat i))"
proof -
  have "(10::int) ^ k \<le> 10 ^ int_max_str_digits"
    using assms(2) by (intro power_increasing) simp_all
  with assms(1) have "\<not> 10 ^ int_max_str_digits \<le> \<bar>i\<bar>" by linarith
  then show ?thesis by (simp add: str_int_def)
qed

lemma str_int_raises_iff: "(\<exists>e. str_int i = Inl e) = (10 ^ int_max_str_digits \<le> \<bar>i\<bar>)"
  by (simp add: str_int_def)

lemma str_int_5: "str_int 5 = Inr ''5''"
proof -
  have "\<bar>5::int\<bar> < 10 ^ 1" by simp
  moreover have "1 \<le> int_max_str_digits" by (simp add: int_max_str_digits_def)
  ultimately have "str_int 5 = Inr (if (5::int) < 0 then CHR ''-'' # str_nat (nat (- 5))
                                   else str_nat (nat 5))"
    by (rule str_int_below)
  then show ?thesis by (simp add: str_nat.simps)
qed

lemma str_int_limit_3: "\<not> 10 ^ int_max_str_digits \<le> \<bar>3::int\<bar>"
proof -
  have "(10::int) ^ 1 \<le> 10 ^ int_max_str_digits"
    by (intro power_increasing) (simp_all add: int_max_str_digits_def)
  then show ?thesis by simp
qed

lemma int_clause_raises_iff:
  "(\<exists>e. int_clause prefix field = Inl e) =
     (\<exists>v. field = Some v \<and> 10 ^ int_max_str_digits \<le> \<bar>v\<bar>)"
proof (cases field)
  case None
  then show ?thesis by (simp add: int_clause_def)
next
  case (Some v)
  have "v \<noteq> 0" if "10 ^ int_max_str_digits \<le> \<bar>v\<bar>"
  proof
    assume "v = 0"
    with that have "(10::int) ^ int_max_str_digits \<le> 0" by simp
    moreover have "(0::int) < 10 ^ int_max_str_digits" by simp
    ultimately show False by linarith
  qed
  then show ?thesis
    using Some str_int_raises_iff [of v]
    by (auto simp: int_clause_def split: sum.splits)
qed

lemma init_query_truthy:
  assumes "f \<noteq> 0" "r \<noteq> 0" "l \<noteq> []" "str_int f = Inr fd" "str_int r = Inr rd"
  shows "UserSearcher_init (Some f) (Some r) (Some l) =
           Inr \<lparr>search_query =
             ''followers:>='' @ fd @ ''+'' @ ''repos:>='' @ rd @ ''+'' @ ''language:'' @ l\<rparr>"
    and "UserSearcher_init (Some f) None None =
           Inr \<lparr>search_query = ''followers:>='' @ fd\<rparr>"
    and "UserSearcher_init None (Some r) None =
           Inr \<lparr>search_query = ''repos:>='' @ rd\<rparr>"
    and "UserSearcher_init None None (Some l) =
           Inr \<lparr>search_query = ''language:'' @ l\<rparr>"
    and "UserSearcher_init (Some f) None (Some l) =
           Inr \<lparr>search_query = ''followers:>='' @ fd @ ''+'' @ ''language:'' @ l\<rparr>"
  using assms by (simp_all add: UserSearcher_init_def int_clause_def)

section \<open>The last page\<close>

lemma search_loop_Inr_all_ok:
  "search_loop tr self n m np is acc = (sent, Inr rs) \<Longrightarrow>
   \<forall>i \<in> set is. \<exists>d. fetch_page tr self n m np i = Inr d"
proof (induction "is" arbitrary: acc sent)
  case Nil
  then show ?case by simp
next
  case (Cons i "is")
  show ?case
  proof (cases "fetch_page tr self n m np i")
    case (Inl e)
    with Cons.prems show ?thesis by (simp add: search_loop_Cons_Inl)
  next
    case (Inr d)
    obtain sent' where "search_loop tr self n m np is (pd_concat acc d) = (sent', Inr rs)"
      using Cons.prems by (simp add: search_loop_Cons_Inr [OF Inr] prod_eq_iff)
    from Cons.IH [OF this] Inr show ?thesis by simp
  qed
qed

lemma fetch_page_Inr_cases:
  "fetch_page tr self n m np i = Inr d' \<Longrightarrow>
   \<exists>items d. tr (make_payload self n m i) = Inr items \<and> project items = Inr d"
  by (auto simp: fetch_page_def split: sum.splits)

lemma py_range_last: "1 \<le> np \<Longrightarrow> py_range np = py_range (np - 1) @ [np - 1]"
  unfolding py_range_def by (rule upto_rec2) simp

text \<open>
  When a search with at least one page returns a frame, the last page of the plan was
  fetched and projected, and the items of the frame are the items of the pages before
  it followed by the first \<open>numResults mod 100\<close> items of the last page (the first 100
  when the remainder is zero).
\<close>

lemma search_cuts_last_page:
  assumes "get_pages n 100 = Inr np" and "1 \<le> np" and "snd (search tr self n) = Inr rs"
  shows "\<exists>items d.
           tr (make_payload self n 100 (np - 1)) = Inr items \<and> project items = Inr d \<and>
           param_page (make_payload self n 100 (np - 1)) = np \<and>
           result_items rs =
             concat (map (page_items tr self n 100 np) (py_range (np - 1))) @
             take (nat (if n mod 100 = 0 then 100 else n mod 100)) (result_items d)"
proof -
  have s: "search tr self n = search_loop tr self n 100 np (py_range np) placeholder"
    using assms(1) by (simp add: search_def)
  have loop: "search_loop tr self n 100 np (py_range np) placeholder =
      (fst (search tr self n), Inr rs)"
    using assms(3) unfolding s by (simp add: prod_eq_iff)
  have "np - 1 \<in> set (py_range np)" using assms(2) by (simp add: py_range_def)
  with search_loop_Inr_all_ok [OF loop]
  obtain d' where "fetch_page tr self n 100 np (np - 1) = Inr d'" by blast
  then obtain items d where
    page: "tr (make_payload self n 100 (np - 1)) = Inr items" "project items = Inr d"
    using fetch_page_Inr_cases by blast
  have last: "page_items tr self n 100 np (np - 1) =
      take (nat (final_res n 100)) (result_items d)"
    using page_items_eq [of tr self n "np - 1" items d np, OF page] by simp
  have "result_items rs = concat (map (page_items tr self n 100 np) (py_range np))"
    using search_loop_Inr [OF loop wf_frame_placeholder]
    by (simp add: result_items_def placeholder_def column_or_nan_def)
  then have "result_items rs =
      concat (map (page_items tr self n 100 np) (py_range (np - 1))) @
      take (nat (final_res n 100)) (result_items d)"
    unfolding py_range_last [OF assms(2)] by (simp add: last)
  then show ?thesis
    using page by (auto simp: final_res_100 make_payload_def)
qed

lemma search_cuts_last_page_example:
  "\<exists>items d.
     sample_transport (make_payload \<lparr>search_query = ''q''\<rparr> 102 100 (2 - 1)) = Inr items \<and>
     project items = Inr d \<and>
     [(CStr ''a'', CStr ''u''), (CStr ''b'', CStr ''v''), (CStr ''c'', CStr ''w''),
      (CStr ''a'', CStr ''u''), (CStr ''b'', CStr ''v'')] =
       concat (map (page_items sample_transport \<lparr>search_query = ''q''\<rparr> 102 100 2)
                 (py_range (2 - 1))) @
       take 2 (result_items d)"
proof -
  let ?rs = "\<lparr>nrows = 5,
      cols = [(''username'', [CStr ''a'', CStr ''b'', CStr ''c'', CStr ''a'', CStr ''b'']),
              (''github_url'', [CStr ''u'', CStr ''v'', CStr ''w'', CStr ''u'', CStr ''v''])]\<rparr>"
  have h1: "get_pages 102 100 = Inr 2" by (simp add: get_pages_def)
  have h2: "(1::int) \<le> 2" by simp
  have h3: "snd (search sample_transport \<lparr>search_query = ''q''\<rparr> 102) = Inr ?rs"
    by (simp add: search_sample_102)
  have ri: "result_items ?rs =
      [(CStr ''a'', CStr ''u''), (CStr ''b'', CStr ''v''), (CStr ''c'', CStr ''w''),
       (CStr ''a'', CStr ''u''), (CStr ''b'', CStr ''v'')]"
    by (simp add: result_items_def column_or_nan_def)
  have k: "nat (if (102::int) mod 100 = 0 then 100 else 102 mod 100) = 2" by simp
  from search_cuts_last_page [OF h1 h2 h3] show ?thesis
    unfolding ri k by blast
qed

text \<open>
  A search for 250 results never sends more than 3 requests, each with \<^verbatim>\<open>per_page\<close>
  100; when the three fetches and projections succeed it sends exactly the requests
  for pages 1, 2 and 3, in this order, and the result is the placeholder with pages 1
  and 2 appended whole and page 3 appended cut to 50 rows.
\<close>

lemma search_250:
  "length (fst (search tr self 250)) \<le> 3 \<and>
   (\<forall>p \<in> set (fst (search tr self 250)). param_per_page p = 100) \<and>
   (tr \<lparr>param_q = search_query self, param_page = 1, param_per_page = 100,
        param_type = ''user''\<rparr> = Inr items_a \<and> project items_a = Inr d_a \<and>
    tr \<lparr>param_q = search_query self, param_page = 2, param_per_page = 100,
        param_type = ''user''\<rparr> = Inr items_b \<and> project items_b = Inr d_b \<and>
    tr \<lparr>param_q = search_query self, param_page = 3, param_per_page = 100,
        param_type = ''user''\<rparr> = Inr items_c \<and> project items_c = Inr d_c \<longrightarrow>
    search tr self 250 =
      ([\<lparr>param_q = search_query self, param_page = 1, param_per_page = 100,
          param_type = ''user''\<rparr>,
        \<lparr>param_q = search_query self, param_page = 2, param_per_page = 100,
          param_type = ''user''\<rparr>,
        \<lparr>param_q = search_query self, param_page = 3, param_per_page = 100,
          param_type = ''user''\<rparr>],
       Inr (pd_concat (pd_concat (pd_concat placeholder d_a) d_b) (iloc d_c 50))) \<and>
    nrows (iloc d_c 50) = min (nrows d_c) 50 \<and>
    result_items (iloc d_c 50) = take 50 (result_items d_c))"
proof -
  have s: "search tr self 250 = search_loop tr self 250 100 3 (py_range 3) placeholder"
    by (simp add: search_def get_pages_def)
  obtain k where k: "k \<le> length (py_range 3)"
    "fst (search tr self 250) = take k (map (make_payload self 250 100) (py_range 3))"
    using search_loop_sent_prefix [of "py_range 3" tr self 250 100 3 placeholder]
    unfolding s by blast
  have a: "length (fst (search tr self 250)) \<le> 3"
    using k by (simp add: py_range_3)
  have b: "\<forall>p \<in> set (fst (search tr self 250)). param_per_page p = 100"
    unfolding k(2) by (auto dest!: in_set_takeD simp: make_payload_def)
  have c: "search tr self 250 =
      ([make_payload self 250 100 0, make_payload self 250 100 1, make_payload self 250 100 2],
       Inr (pd_concat (pd_concat (pd_concat placeholder d_a) d_b) (iloc d_c 50)))"
    if "tr (make_payload self 250 100 0) = Inr items_a" "project items_a = Inr d_a"
       "tr (make_payload self 250 100 1) = Inr items_b" "project items_b = Inr d_b"
       "tr (make_payload self 250 100 2) = Inr items_c" "project items_c = Inr d_c"
  proof -
    have f0: "fetch_page tr self 250 100 3 0 = Inr d_a"
      using that(1,2) by (simp add: fetch_page_def)
    have f1: "fetch_page tr self 250 100 3 1 = Inr d_b"
      using that(3,4) by (simp add: fetch_page_def)
    have f2: "fetch_page tr self 250 100 3 2 = Inr (iloc d_c 50)"
      using that(5,6) by (simp add: fetch_page_def final_res_def)
    show ?thesis
      unfolding s py_range_3
      by (simp add: search_loop_Cons_Inr [OF f0] search_loop_Cons_Inr [OF f1]
          search_loop_Cons_Inr [OF f2])
  qed
  have d: "nrows (iloc d_c 50) = min (nrows d_c) 50"
    by (simp add: iloc_def slice_stop_def)
  have e: "result_items (iloc d_c 50) = take 50 (result_items d_c)" if "project items_c = Inr d_c"
  proof -
    have "length (result_items d_c) = nrows d_c"
      by (rule length_result_items [OF wf_frame_project [OF that]])
    then show ?thesis by (simp add: result_items_iloc slice_stop_def take_min_length)
  qed
  from a b c d e show ?thesis by (simp add: make_payload_def)
qed

section \<open>The claims\<close>

text \<open>
  Claim C1 says that search returns \<open>min numResults available\<close> items. On a backend
  with no matching record the only page is empty: \<^verbatim>\<open>pd.json_normalize([])\<close> has no
  column, and line 120 raises KeyError for \<^verbatim>\<open>login\<close> where the claim has an empty
  result. Where no page of the plan is empty the number of items is as the claim has
  it (lemma \<open>search_count\<close>).
\<close>

theorem search_empty_backend_raises:
  "search (paged_backend []) self 10 =
     ([\<lparr>param_q = search_query self, param_page = 1, param_per_page = 10,
        param_type = ''user''\<rparr>],
      Inl (KeyError ''login''))"
proof -
  have "fetch_page (paged_backend []) self 10 100 1 0 = Inl (KeyError ''login'')"
    by (simp add: fetch_page_def paged_backend_def project_Nil)
  then show ?thesis
    by (simp add: search_def get_pages_def py_range_1 search_loop_Cons_Inl make_payload_def)
qed

text \<open>
  Claim C2. For every \<open>numResults > 0\<close> the page count is \<open>numResults div 100\<close>, plus
  one when \<open>numResults mod 100\<close> is not zero; for 1, 99, 100, 101, 150, 200 and 201
  results it is 1, 1, 1, 2, 2, 2 and 3.
\<close>

theorem get_pages_formula:
  "(0 < n \<longrightarrow> get_pages n 100 = Inr (n div 100 + (if n mod 100 \<noteq> 0 then 1 else 0))) \<and>
   map (\<lambda>k. get_pages k 100) [1, 99, 100, 101, 150, 200, 201] =
     map Inr [1, 1, 1, 2, 2, 2, 3]"
  by (simp add: get_pages_def mod_100_pos_iff)

theorem get_pages_formula_witness:
  "(0::int) < 250 \<and> get_pages 250 100 = Inr 3"
  using get_pages_formula [of 250] by simp

text \<open>
  Claim C3 says that the last page is cut to \<open>numResults mod 100\<close> items, or to 100
  when the remainder is zero. With 200 results asked and three users available the
  page count is 2, the cut would be at 100, and page 2, the last, comes back empty:
  line 120 raises KeyError for \<^verbatim>\<open>login\<close> before lines 124 to 126 are reached, and the
  search ends without a result, where the claim has the empty page cut and the three
  items of page 1 returned. This is the defect of claim C1. Whenever search returns a
  frame, its last page has been cut as the claim says (lemma \<open>search_cuts_last_page\<close>).
\<close>

theorem search_empty_last_page_raises:
  "get_pages 200 100 = Inr 2 \<and> final_res 200 100 = 100 \<and>
   paged_backend (sample_page 1)
     \<lparr>param_q = search_query self, param_page = 2, param_per_page = 100,
      param_type = ''user''\<rparr> = Inr [] \<and>
   search (paged_backend (sample_page 1)) self 200 =
     ([\<lparr>param_q = search_query self, param_page = 1, param_per_page = 100,
        param_type = ''user''\<rparr>,
       \<lparr>param_q = search_query self, param_page = 2, param_per_page = 100,
        param_type = ''user''\<rparr>],
      Inl (KeyError ''login''))"
proof -
  let ?tr = "paged_backend (sample_page 1)"
  have p1: "?tr (make_payload self 200 100 0) = Inr (sample_page 1)"
    by (simp add: paged_backend_def make_payload_def sample_page_def)
  have p2: "?tr (make_payload self 200 100 1) = Inr []"
    by (simp add: paged_backend_def make_payload_def sample_page_def)
  have f1: "fetch_page ?tr self 200 100 2 0 =
      Inr \<lparr>nrows = 3,
           cols = [(''username'', [CStr ''a'', CStr ''b'', CStr ''c'']),
                   (''github_url'', [CStr ''u'', CStr ''v'', CStr ''w''])]\<rparr>"
    by (simp add: fetch_page_def p1 project_sample)
  have f2: "fetch_page ?tr self 200 100 2 1 = Inl (KeyError ''login'')"
    by (simp add: fetch_page_def p2 project_Nil)
  have r: "py_range 2 = [0, 1]" by (simp add: py_range_def upto_rec1)
  have "search ?tr self 200 =
      ([make_payload self 200 100 0, make_payload self 200 100 1], Inl (KeyError ''login''))"
    by (simp add: search_def get_pages_def r search_loop_Cons_Inr [OF f1]
        search_loop_Cons_Inl [OF f2])
  then show ?thesis
    using p2 by (simp add: make_payload_def get_pages_def final_res_def)
qed

text \<open>
  Claim C4 says that a search for 250 results sends exactly 3 requests and cuts the
  last page to 50 items. The page count is 3, but on a backend with no matching user
  page 1 comes back empty, line 120 raises KeyError for \<^verbatim>\<open>login\<close>, and the search ends
  after one request (\<^verbatim>\<open>per_page\<close> 100) without a result: the defect of claim C1. When
  the three pages are fetched and projected, search does as the claim says (lemma
  \<open>search_250\<close>).
\<close>

theorem search_250_empty_backend_raises:
  "get_pages 250 100 = Inr 3 \<and>
   search (paged_backend []) self 250 =
     ([\<lparr>param_q = search_query self, param_page = 1, param_per_page = 100,
        param_type = ''user''\<rparr>],
      Inl (KeyError ''login''))"
proof -
  have "fetch_page (paged_backend []) self 250 100 3 0 = Inl (KeyError ''login'')"
    by (simp add: fetch_page_def paged_backend_def project_Nil)
  then show ?thesis
    by (simp add: search_def get_pages_def py_range_3 search_loop_Cons_Inl make_payload_def)
qed



text \<open>
  Claim C6 says that every field that is present gets its clause. Lines 62, 64 and 66
  test the truth value of the field, not \<^verbatim>\<open>is None\<close> as line 54 does: a follower or
  repository minimum of 0 and an empty language are present and get no clause.
\<close>

theorem init_zero_followers:
  "UserSearcher_init (Some 0) None None = Inr \<lparr>search_query = ''''\<rparr> \<and>
   UserSearcher_init (Some 0) (Some 5) (Some '''') = Inr \<lparr>search_query = ''repos:>=5''\<rparr>"
  by (simp add: UserSearcher_init_def int_clause_def str_int_5)

text \<open>
  Claim C7, as amended. Construction raises the ValueError of line 55 if and only if
  the three arguments are all \<^verbatim>\<open>None\<close>. It raises at all if and only if they are all
  \<^verbatim>\<open>None\<close>, or the follower or the repository minimum has more than 4300 decimal
  digits (its absolute value is at least \<open>10 ^ 4300\<close>), where \<^verbatim>\<open>str\<close> in the f-string
  of line 63 or 65 raises ValueError; in every other case it returns a searcher.
\<close>

theorem init_raises_cases:
  "(UserSearcher_init a b c = Inl (ValueError ''Must specify at least one search parameter.''))
     = (a = None \<and> b = None \<and> c = None) \<and>
   ((\<exists>e. UserSearcher_init a b c = Inl e) =
      ((a = None \<and> b = None \<and> c = None) \<or>
       (\<exists>f. a = Some f \<and> 10 ^ int_max_str_digits \<le> \<bar>f\<bar>) \<or>
       (\<exists>r. b = Some r \<and> 10 ^ int_max_str_digits \<le> \<bar>r\<bar>))) \<and>
   ((\<exists>s. UserSearcher_init a b c = Inr s) =
      (\<not> (a = None \<and> b = None \<and> c = None) \<and>
       \<not> (\<exists>f. a = Some f \<and> 10 ^ int_max_str_digits \<le> \<bar>f\<bar>) \<and>
       \<not> (\<exists>r. b = Some r \<and> 10 ^ int_max_str_digits \<le> \<bar>r\<bar>))) \<and>
   int_max_str_digits = 4300"
proof -
  let ?none = "a = None \<and> b = None \<and> c = None"
  let ?fa = "int_clause ''followers:>='' a"
  let ?fb = "int_clause ''repos:>='' b"
  have must: "e \<noteq> ValueError ''Must specify at least one search parameter.''"
    if "int_clause prefix field = Inl e" for prefix field e
    using that
    by (auto simp: int_clause_def str_int_def split: option.splits if_splits sum.splits)
  have one: "(UserSearcher_init a b c =
               Inl (ValueError ''Must specify at least one search parameter.'')) = ?none"
    using must [of "''followers:>=''" a] must [of "''repos:>=''" b]
    by (auto simp: UserSearcher_init_def split: sum.splits)
  have raises: "(\<exists>e. UserSearcher_init a b c = Inl e) =
                  (?none \<or> (\<exists>e. ?fa = Inl e) \<or> (\<exists>e. ?fb = Inl e))"
    by (auto simp: UserSearcher_init_def split: sum.splits)
  have returns: "(\<exists>s. UserSearcher_init a b c = Inr s) =
                  (\<not> ?none \<and> \<not> (\<exists>e. ?fa = Inl e) \<and> \<not> (\<exists>e. ?fb = Inl e))"
    by (auto simp: UserSearcher_init_def split: sum.splits)
  show ?thesis
    using one raises returns
    unfolding int_clause_raises_iff by (simp add: int_max_str_digits_def [symmetric])
qed

theorem init_raises_cases_witness:
  "UserSearcher_init None None None =
     Inl (ValueError ''Must specify at least one search parameter.'') \<and>
   (\<exists>s. UserSearcher_init None (Some 3) None = Inr s) \<and>
   (\<exists>e. UserSearcher_init (Some (10 ^ int_max_str_digits)) None None = Inl e)"
proof -
  have big: "10 ^ int_max_str_digits \<le> \<bar>(10::int) ^ int_max_str_digits\<bar>" by simp
  show ?thesis
    using init_raises_cases [of None None None] init_raises_cases [of None "Some 3" None]
      init_raises_cases [of "Some (10 ^ int_max_str_digits)" None None] str_int_limit_3 big
    by simp
qed

text \<open>
  The claim as first stated has construction succeed whenever a field is present. With
  the follower minimum \<open>10 ^ 4300\<close>, a number of 4301 digits, the field is present and
  line 63 raises.
\<close>

theorem init_present_field_counterexample:
  "UserSearcher_init (Some (10 ^ 4300)) None None =
     Inl (ValueError (''Exceeds the limit (4300 digits) for integer string conversion; '' @
                      ''use sys.set_int_max_str_digits() to increase the limit''))"
proof -
  have e: "(10::int) ^ 4300 = 10 ^ int_max_str_digits"
    by (simp only: int_max_str_digits_def)
  have big: "10 ^ int_max_str_digits \<le> \<bar>(10::int) ^ int_max_str_digits\<bar>" by simp
  have nz: "(10::int) ^ int_max_str_digits \<noteq> 0" by simp
  have "UserSearcher_init (Some (10 ^ int_max_str_digits)) None None =
     Inl (ValueError (''Exceeds the limit (4300 digits) for integer string conversion; '' @
                      ''use sys.set_int_max_str_digits() to increase the limit''))"
    using big nz by (simp add: UserSearcher_init_def int_clause_def str_int_def)
  then show ?thesis unfolding e .
qed

text \<open>
  Claim C8. When the transport raises on a request that search sends, search ends with
  that very exception and returns no frame; the failing request is the last one sent,
  and no request is sent twice.
\<close>

theorem transport_failure_propagates:
  assumes "p \<in> set (fst (search tr self n))" and "tr p = Inl e"
  shows "snd (search tr self n) = Inl e \<and> p = last (fst (search tr self n)) \<and>
         distinct (fst (search tr self n))"
proof -
  let ?np = "- ((- n) div 100)"
  have s: "search tr self n = search_loop tr self n 100 ?np (py_range ?np) placeholder"
    by (rule search_100)
  have ne: "fst (search tr self n) \<noteq> []" using assms(1) by auto
  have "p \<notin> set (butlast (fst (search tr self n)))"
    using search_loop_butlast_ok [of p tr self n 100 ?np "py_range ?np" placeholder] assms(2)
    unfolding s by auto
  then have last: "p = last (fst (search tr self n))"
    using assms(1) ne by (metis append_butlast_last_id in_set_conv_decomp rotate1.simps(2) set_ConsD set_rotate1)
  have "snd (search tr self n) = Inl e"
    using search_loop_last_fails [of tr self n 100 ?np "py_range ?np" placeholder e]
      ne assms(2) last unfolding s by simp
  moreover have "distinct (fst (search tr self n))"
    unfolding s by (rule search_loop_distinct) (simp add: py_range_def)
  ultimately show ?thesis using last by simp
qed

theorem transport_failure_propagates_witness:
  "failing_transport \<lparr>param_q = ''q'', param_page = 2, param_per_page = 100,
      param_type = ''user''\<rparr> = Inl (RequestException ''reset'') \<and>
   snd (search failing_transport \<lparr>search_query = ''q''\<rparr> 250) =
      Inl (RequestException ''reset'') \<and>
   length (fst (search failing_transport \<lparr>search_query = ''q''\<rparr> 250)) = 2"
  using transport_failure_propagates [where tr = failing_transport and
      self = "\<lparr>search_query = ''q''\<rparr>" and n = 250 and
      p = "\<lparr>param_q = ''q'', param_page = 2, param_per_page = 100, param_type = ''user''\<rparr>" and
      e = "RequestException ''reset''"]
  by (simp add: search_failing_250 failing_transport_def)

text \<open>
  Claim C9. The frame that search returns has exactly the two columns \<^verbatim>\<open>username\<close> and
  \<^verbatim>\<open>github_url\<close> (the spec's profileUrl). A projected page has no column but these
  two and none of the keys of the backend's records; and when no record has a key named
  \<^verbatim>\<open>username\<close> or \<^verbatim>\<open>github_url\<close> itself, its two columns are the \<^verbatim>\<open>login\<close> and the
  \<^verbatim>\<open>html_url\<close> of the records, row by row.
\<close>

theorem result_has_two_fields:
  "(snd (search tr self n) = Inr rs \<longrightarrow>
      column_names rs = [''username'', ''github_url'']) \<and>
   (project items = Inr d \<longrightarrow>
      set (column_names d) \<subseteq> {''username'', ''github_url''} \<and>
      set (column_names d) \<inter> set (record_keys items) = {}) \<and>
   (project items = Inr d \<and> ''username'' \<notin> set (record_keys items) \<and>
    ''github_url'' \<notin> set (record_keys items) \<longrightarrow>
      d = \<lparr>nrows = length items,
           cols = [(''username'', map (\<lambda>r. cell_of r ''login'') items),
                   (''github_url'', map (\<lambda>r. cell_of r ''html_url'') items)]\<rparr>)"
proof -
  have a: "column_names rs = [''username'', ''github_url'']" if "snd (search tr self n) = Inr rs"
  proof -
    have "search_loop tr self n 100 (- ((- n) div 100)) (py_range (- ((- n) div 100))) placeholder =
        (fst (search tr self n), Inr rs)"
      using that by (simp add: search_100 [symmetric] prod_eq_iff)
    then show ?thesis
      by (rule search_loop_column_names) (simp add: column_names_def placeholder_def)
  qed
  have c: "d = \<lparr>nrows = length items,
           cols = [(''username'', map (\<lambda>r. cell_of r ''login'') items),
                   (''github_url'', map (\<lambda>r. cell_of r ''html_url'') items)]\<rparr>"
    if "project items = Inr d" "''username'' \<notin> set (record_keys items)"
       "''github_url'' \<notin> set (record_keys items)"
    using that unfolding project_eq by (simp split: if_splits)
  from a c column_names_project [of items d] show ?thesis by blast
qed

theorem result_has_two_fields_witness:
  "column_names \<lparr>nrows = 5,
      cols = [(''username'', [CStr ''a'', CStr ''b'', CStr ''c'', CStr ''a'', CStr ''b'']),
              (''github_url'', [CStr ''u'', CStr ''v'', CStr ''w'', CStr ''u'', CStr ''v''])]\<rparr> =
     [''username'', ''github_url''] \<and>
   snd (search sample_transport \<lparr>search_query = ''q''\<rparr> 102) =
     Inr \<lparr>nrows = 5,
      cols = [(''username'', [CStr ''a'', CStr ''b'', CStr ''c'', CStr ''a'', CStr ''b'']),
              (''github_url'', [CStr ''u'', CStr ''v'', CStr ''w'', CStr ''u'', CStr ''v''])]\<rparr> \<and>
   project (sample_page 7) =
     Inr \<lparr>nrows = length (sample_page 7),
          cols = [(''username'', map (\<lambda>r. cell_of r ''login'') (sample_page 7)),
                  (''github_url'', map (\<lambda>r. cell_of r ''html_url'') (sample_page 7))]\<rparr>"
  using result_has_two_fields [where tr = sample_transport and
      self = "\<lparr>search_query = ''q''\<rparr>" and n = 102 and items = "sample_page 7" and
      rs = "\<lparr>nrows = 5,
         cols = [(''username'', [CStr ''a'', CStr ''b'', CStr ''c'', CStr ''a'', CStr ''b'']),
                 (''github_url'', [CStr ''u'', CStr ''v'', CStr ''w'', CStr ''u'', CStr ''v''])]\<rparr>" and
      d = "\<lparr>nrows = 3,
          cols = [(''username'', [CStr ''a'', CStr ''b'', CStr ''c'']),
                  (''github_url'', [CStr ''u'', CStr ''v'', CStr ''w''])]\<rparr>"]
  by (simp add: search_sample_102 project_sample)
     (simp add: sample_page_def cell_of_def)

text \<open>
  Claim C10, as amended. For every \<open>numResults \<le> 0\<close> the page count is
  \<open>- ((- numResults) div 100)\<close>: never positive, and 0 exactly when
  \<open>- 100 < numResults\<close>. The loop then runs over an empty range: search sends no request,
  raises nothing and returns the placeholder, which has no row.
\<close>

theorem search_nonpositive:
  assumes "n \<le> 0"
  shows "get_pages n 100 = Inr (- ((- n) div 100)) \<and> - ((- n) div 100) \<le> 0 \<and>
         (get_pages n 100 = Inr 0) = (- 100 < n) \<and>
         search tr self n = ([], Inr placeholder) \<and> nrows placeholder = 0"
proof -
  have nn: "0 \<le> - n" using assms by simp
  have le: "- ((- n) div 100) \<le> 0" using nn by (simp add: pos_imp_zdiv_nonneg_iff)
  have "((- n) div 100 = 0) = (- n < 100)"
    using nn by (auto simp add: zdiv_eq_0_iff)
  then have z: "(- ((- n) div 100) = 0) = (- 100 < n)" by auto
  have "search tr self n = ([], Inr placeholder)"
    using le by (simp add: search_def get_pages_100 py_range_nonpos)
  then show ?thesis using le z by (simp add: placeholder_def get_pages_100)
qed

theorem search_nonpositive_witness:
  "(- 250 :: int) \<le> 0 \<and> get_pages (- 250) 100 = Inr (- 2) \<and>
   search (\<lambda>p. Inl (RequestException ''unreachable'')) \<lparr>search_query = ''language:c''\<rparr> (- 250)
     = ([], Inr placeholder)"
  using search_nonpositive [of "- 250" "\<lambda>p. Inl (RequestException ''unreachable'')"
      "\<lparr>search_query = ''language:c''\<rparr>"]
  by simp

text \<open>
  The claim as first stated gives the page count 0 for every \<open>numResults \<le> 0\<close>; at
  \<open>- 100\<close> the page count is \<open>- 1\<close>.
\<close>

theorem nonpositive_page_count_counterexample:
  "(- 100 :: int) \<le> 0 \<and> get_pages (- 100) 100 = Inr (- 1) \<and> get_pages (- 100) 100 \<noteq> Inr 0"
  by (simp add: get_pages_def)

end
